theory Spec2Isabelle
  imports Main
begin

section \<open>Host numbers\<close>

text \<open>
  The model takes from the interpreter what the program takes from it: unbounded
  integers, IEEE-754 doubles, \<open>str.isspace\<close>, \<open>str.isdigit\<close>, \<open>int\<close> and \<open>float\<close> on
  strings, and \<open>math.pow\<close>. Two limits of the interpreter are left out: the bound on
  the depth of recursion, and the configurable bound on the number of digits that
  \<open>int\<close> converts.
\<close>

text \<open>
  The program computes with Python's two numeric types. An \<open>int\<close> is unbounded and is
  modelled by HOL's \<open>int\<close>. A \<open>float\<close> is an IEEE-754 binary64 value, modelled here by
  its exact content: \<open>Finite s m e\<close> stands for \<open>(-1)^s * m * 2^e\<close> and is kept in the
  unique form where \<open>m\<close> is odd (zero is \<open>Finite s 0 0\<close>, with its sign), so that
  equality of two models is equality of the two doubles. Every operation is the exact
  result rounded to the nearest double, ties to even.
\<close>

datatype pyfloat = Finite bool nat int | Infinity bool | NaN

fun bit_length :: "nat \<Rightarrow> nat" where
  "bit_length n = (if n = 0 then 0 else Suc (bit_length (n div 2)))"

declare bit_length.simps [simp del]

fun norm_dyadic :: "nat \<Rightarrow> int \<Rightarrow> nat \<times> int" where
  "norm_dyadic m e =
     (if m = 0 then (0, 0)
      else if even m then norm_dyadic (m div 2) (e + 1)
      else (m, e))"

declare norm_dyadic.simps [simp del]

definition round_half_even :: "nat \<Rightarrow> nat \<Rightarrow> nat" where
  \<comment> \<open>the integer nearest to \<open>p / q\<close> (for \<open>q > 0\<close>), a tie going to the even one\<close>
  "round_half_even p q =
     (let m = p div q; r = p mod q
      in if 2 * r < q then m
         else if q < 2 * r then m + 1
         else if even m then m else m + 1)"

definition floor_log2 :: "nat \<Rightarrow> nat \<Rightarrow> int" where
  \<comment> \<open>\<open>\<lfloor>log2 (p / q)\<rfloor>\<close> for positive \<open>p\<close> and \<open>q\<close>\<close>
  "floor_log2 p q =
     (let k = int (bit_length p) - int (bit_length q)
      in if (if 0 \<le> k then q * 2 ^ nat k \<le> p else q \<le> p * 2 ^ nat (- k))
         then k else k - 1)"

definition round_to_double :: "bool \<Rightarrow> nat \<Rightarrow> nat \<Rightarrow> pyfloat option" where
  \<comment> \<open>the double nearest to \<open>(-1)^neg * p / q\<close>; \<open>None\<close> when it is beyond the
      largest finite double\<close>
  "round_to_double neg p q =
     (if p = 0 then Some (Finite neg 0 0)
      else
        let u = max (floor_log2 p q - 52) (- 1074);
            m = (if 0 \<le> u then round_half_even p (q * 2 ^ nat u)
                 else round_half_even (p * 2 ^ nat (- u)) q)
        in if 1024 < int (bit_length m) + u then None
           else Some (case norm_dyadic m u of (m', e') \<Rightarrow> Finite neg m' e'))"

definition round_or_inf :: "bool \<Rightarrow> nat \<Rightarrow> nat \<Rightarrow> pyfloat" where
  "round_or_inf neg p q =
     (case round_to_double neg p q of None \<Rightarrow> Infinity neg | Some f \<Rightarrow> f)"

definition round_scaled :: "bool \<Rightarrow> nat \<Rightarrow> int \<Rightarrow> pyfloat" where
  \<comment> \<open>the double nearest to \<open>(-1)^neg * n * 2^e\<close>, infinite on overflow\<close>
  "round_scaled neg n e =
     (if 0 \<le> e then round_or_inf neg (n * 2 ^ nat e) 1
      else round_or_inf neg n (2 ^ nat (- e)))"

fun float_neg :: "pyfloat \<Rightarrow> pyfloat" where
  "float_neg (Finite s m e) = Finite (\<not> s) m e"
| "float_neg (Infinity s) = Infinity (\<not> s)"
| "float_neg NaN = NaN"

fun float_add :: "pyfloat \<Rightarrow> pyfloat \<Rightarrow> pyfloat" where
  "float_add NaN y = NaN"
| "float_add x NaN = NaN"
| "float_add (Infinity s) (Infinity t) = (if s = t then Infinity s else NaN)"
| "float_add (Infinity s) (Finite t m e) = Infinity s"
| "float_add (Finite s m e) (Infinity t) = Infinity t"
| "float_add (Finite s1 m1 e1) (Finite s2 m2 e2) =
     (let e = min e1 e2;
          n1 = (if s1 then - 1 else 1) * int m1 * 2 ^ nat (e1 - e);
          n2 = (if s2 then - 1 else 1) * int m2 * 2 ^ nat (e2 - e);
          n = n1 + n2
      in if n = 0 then Finite (s1 \<and> s2) 0 0
         else round_scaled (n < 0) (nat \<bar>n\<bar>) e)"

definition float_sub :: "pyfloat \<Rightarrow> pyfloat \<Rightarrow> pyfloat" where
  "float_sub x y = float_add x (float_neg y)"

fun float_mul :: "pyfloat \<Rightarrow> pyfloat \<Rightarrow> pyfloat" where
  "float_mul NaN y = NaN"
| "float_mul x NaN = NaN"
| "float_mul (Infinity s) (Infinity t) = Infinity (s \<noteq> t)"
| "float_mul (Infinity s) (Finite t m e) = (if m = 0 then NaN else Infinity (s \<noteq> t))"
| "float_mul (Finite s m e) (Infinity t) = (if m = 0 then NaN else Infinity (s \<noteq> t))"
| "float_mul (Finite s1 m1 e1) (Finite s2 m2 e2) =
     (if m1 * m2 = 0 then Finite (s1 \<noteq> s2) 0 0
      else round_scaled (s1 \<noteq> s2) (m1 * m2) (e1 + e2))"

fun float_is_zero :: "pyfloat \<Rightarrow> bool" where
  "float_is_zero (Finite s m e) = (m = 0)"
| "float_is_zero (Infinity s) = False"
| "float_is_zero NaN = False"

fun float_div :: "pyfloat \<Rightarrow> pyfloat \<Rightarrow> pyfloat" where
  \<comment> \<open>the quotient for a divisor that is not zero; Python raises before dividing by zero\<close>
  "float_div NaN y = NaN"
| "float_div x NaN = NaN"
| "float_div (Infinity s) (Infinity t) = NaN"
| "float_div (Infinity s) (Finite t m e) = Infinity (s \<noteq> t)"
| "float_div (Finite s m e) (Infinity t) = Finite (s \<noteq> t) 0 0"
| "float_div (Finite s1 m1 e1) (Finite s2 m2 e2) =
     (let d = e1 - e2
      in round_or_inf (s1 \<noteq> s2) (m1 * 2 ^ nat d) (m2 * 2 ^ nat (- d)))"


lemmas float_eval =
  round_to_double_def floor_log2_def bit_length.simps round_half_even_def
  norm_dyadic.simps round_or_inf_def round_scaled_def float_sub_def

section \<open>Values and errors\<close>

text \<open>
  A Python value held by a token: \<open>None\<close>, an \<open>int\<close>, a \<open>float\<close> or a \<open>str\<close>.
  Every exception the program can raise is a constructor of \<open>error\<close>; the program's own
  exceptions carry what their message carries.
\<close>

datatype pyvalue = NoneV | IntV int | FloatV pyfloat | StrV string

datatype TokenType = NUMBER | PLUS | MINUS | MUL | DIV | POW | LPAREN | RPAREN | EOF

datatype error =
    LexicalError char nat
      \<comment> \<open>\<open>Lexical Error: Invalid character 'c' at position p\<close>\<close>
  | SyntaxError_Expected TokenType TokenType
      \<comment> \<open>\<open>Syntax Error: Expected T, but found U\<close>\<close>
  | SyntaxError_Unexpected TokenType
      \<comment> \<open>\<open>Syntax Error: Unexpected token T\<close>\<close>
  | SyntaxError_EndExpected
      \<comment> \<open>\<open>Syntax Error: End of expression expected\<close>\<close>
  | DivisionByZero
      \<comment> \<open>\<open>Semantic Error: Division by zero\<close>\<close>
  | UnknownNode
      \<comment> \<open>\<open>Evaluation Error: Unknown node type\<close>\<close>
  | ValueError
  | OverflowError
  | ZeroDivisionError
  | TypeError

subsection \<open>Conversions\<close>

definition float_of_int :: "int \<Rightarrow> error + pyfloat" where
  \<comment> \<open>\<open>float(n)\<close>: correctly rounded, \<open>OverflowError\<close> beyond the finite doubles\<close>
  "float_of_int n =
     (case round_to_double (n < 0) (nat \<bar>n\<bar>) 1 of
        None \<Rightarrow> Inl OverflowError
      | Some f \<Rightarrow> Inr f)"

definition is_ascii_digit :: "char \<Rightarrow> bool" where
  "is_ascii_digit c = (48 \<le> (of_char c :: nat) \<and> (of_char c :: nat) \<le> 57)"

definition digit_val :: "char \<Rightarrow> nat" where
  "digit_val c = of_char c - 48"

definition digits_value :: "string \<Rightarrow> nat" where
  "digits_value s = foldl (\<lambda>a c. 10 * a + digit_val c) 0 s"

definition py_int :: "string \<Rightarrow> error + int" where
  \<comment> \<open>\<open>int(s)\<close> on a run of \<open>isdigit\<close> characters: the decimal value, and
      \<open>ValueError\<close> when a character is not one of \<open>0\<close> to \<open>9\<close>\<close>
  "py_int s =
     (if s \<noteq> [] \<and> list_all is_ascii_digit s then Inr (int (digits_value s))
      else Inl ValueError)"

definition py_float :: "string \<Rightarrow> error + pyfloat" where
  \<comment> \<open>\<open>float(s)\<close> on a run of \<open>isdigit\<close> characters and dots: one dot and at least
      one digit, all of them \<open>0\<close> to \<open>9\<close>, give the nearest double (infinite when too
      large); anything else is a \<open>ValueError\<close>\<close>
  "py_float s =
     (let ds = filter (\<lambda>c. c \<noteq> CHR ''.'') s
      in if length s = length ds + 1 \<and> ds \<noteq> [] \<and> list_all is_ascii_digit ds
         then Inr (round_or_inf False (digits_value ds)
                     (10 ^ length (tl (dropWhile (\<lambda>c. c \<noteq> CHR ''.'') s))))
         else Inl ValueError)"

subsection \<open>Arithmetic\<close>

fun py_add :: "pyvalue \<Rightarrow> pyvalue \<Rightarrow> error + pyvalue" where
  "py_add (IntV a) (IntV b) = Inr (IntV (a + b))"
| "py_add (IntV a) (FloatV y) =
     (case float_of_int a of Inl e \<Rightarrow> Inl e | Inr x \<Rightarrow> Inr (FloatV (float_add x y)))"
| "py_add (FloatV x) (IntV b) =
     (case float_of_int b of Inl e \<Rightarrow> Inl e | Inr y \<Rightarrow> Inr (FloatV (float_add x y)))"
| "py_add (FloatV x) (FloatV y) = Inr (FloatV (float_add x y))"
| "py_add (StrV s) (StrV t) = Inr (StrV (s @ t))"
| "py_add _ _ = Inl TypeError"

fun py_sub :: "pyvalue \<Rightarrow> pyvalue \<Rightarrow> error + pyvalue" where
  "py_sub (IntV a) (IntV b) = Inr (IntV (a - b))"
| "py_sub (IntV a) (FloatV y) =
     (case float_of_int a of Inl e \<Rightarrow> Inl e | Inr x \<Rightarrow> Inr (FloatV (float_sub x y)))"
| "py_sub (FloatV x) (IntV b) =
     (case float_of_int b of Inl e \<Rightarrow> Inl e | Inr y \<Rightarrow> Inr (FloatV (float_sub x y)))"
| "py_sub (FloatV x) (FloatV y) = Inr (FloatV (float_sub x y))"
| "py_sub _ _ = Inl TypeError"

fun py_mul :: "pyvalue \<Rightarrow> pyvalue \<Rightarrow> error + pyvalue" where
  "py_mul (IntV a) (IntV b) = Inr (IntV (a * b))"
| "py_mul (IntV a) (FloatV y) =
     (case float_of_int a of Inl e \<Rightarrow> Inl e | Inr x \<Rightarrow> Inr (FloatV (float_mul x y)))"
| "py_mul (FloatV x) (IntV b) =
     (case float_of_int b of Inl e \<Rightarrow> Inl e | Inr y \<Rightarrow> Inr (FloatV (float_mul x y)))"
| "py_mul (FloatV x) (FloatV y) = Inr (FloatV (float_mul x y))"
| "py_mul (StrV s) (IntV n) = Inr (StrV (concat (replicate (nat n) s)))"
| "py_mul (IntV n) (StrV s) = Inr (StrV (concat (replicate (nat n) s)))"
| "py_mul _ _ = Inl TypeError"

fun py_truediv :: "pyvalue \<Rightarrow> pyvalue \<Rightarrow> error + pyvalue" where
  "py_truediv (IntV a) (IntV b) =
     (if b = 0 then Inl ZeroDivisionError
      else case round_to_double ((a < 0) \<noteq> (b < 0)) (nat \<bar>a\<bar>) (nat \<bar>b\<bar>) of
             None \<Rightarrow> Inl OverflowError
           | Some f \<Rightarrow> Inr (FloatV f))"
| "py_truediv (IntV a) (FloatV y) =
     (case float_of_int a of
        Inl e \<Rightarrow> Inl e
      | Inr x \<Rightarrow> if float_is_zero y then Inl ZeroDivisionError
                 else Inr (FloatV (float_div x y)))"
| "py_truediv (FloatV x) (IntV b) =
     (case float_of_int b of
        Inl e \<Rightarrow> Inl e
      | Inr y \<Rightarrow> if float_is_zero y then Inl ZeroDivisionError
                 else Inr (FloatV (float_div x y)))"
| "py_truediv (FloatV x) (FloatV y) =
     (if float_is_zero y then Inl ZeroDivisionError else Inr (FloatV (float_div x y)))"
| "py_truediv _ _ = Inl TypeError"

fun py_eq_zero :: "pyvalue \<Rightarrow> bool" where
  \<comment> \<open>\<open>v == 0\<close>\<close>
  "py_eq_zero (IntV n) = (n = 0)"
| "py_eq_zero (FloatV f) = float_is_zero f"
| "py_eq_zero _ = False"

fun py_as_float :: "pyvalue \<Rightarrow> error + pyfloat" where
  "py_as_float (IntV n) = float_of_int n"
| "py_as_float (FloatV f) = Inr f"
| "py_as_float _ = Inl TypeError"

definition math_pow ::
  "(pyfloat \<Rightarrow> pyfloat \<Rightarrow> error + pyfloat) \<Rightarrow> pyvalue \<Rightarrow> pyvalue \<Rightarrow> error + pyvalue" where
  \<comment> \<open>\<open>math.pow(a, b)\<close>: both arguments are converted to doubles and handed to the
      platform's \<open>pow\<close>, which is the parameter \<open>host_pow\<close>\<close>
  "math_pow host_pow a b =
     (case py_as_float a of
        Inl e \<Rightarrow> Inl e
      | Inr x \<Rightarrow>
          (case py_as_float b of
             Inl e \<Rightarrow> Inl e
           | Inr y \<Rightarrow>
               (case host_pow x y of Inl e \<Rightarrow> Inl e | Inr r \<Rightarrow> Inr (FloatV r))))"

section \<open>Lexical analyzer\<close>

text \<open>
  Characters are code points below 256. \<open>isspace\<close> and \<open>isdigit\<close> are Python's
  \<open>str.isspace\<close> and \<open>str.isdigit\<close> on that range: the white space characters are
  U+0009 to U+000D, U+001C to U+0020, U+0085 and U+00A0; the digits are \<open>0\<close> to \<open>9\<close>
  and the superscripts U+00B2, U+00B3 and U+00B9.
\<close>

definition isspace :: "char \<Rightarrow> bool" where
  "isspace c =
     (let n = (of_char c :: nat)
      in (9 \<le> n \<and> n \<le> 13) \<or> (28 \<le> n \<and> n \<le> 32) \<or> n = 133 \<or> n = 160)"

definition isdigit :: "char \<Rightarrow> bool" where
  "isdigit c =
     (let n = (of_char c :: nat)
      in (48 \<le> n \<and> n \<le> 57) \<or> n = 178 \<or> n = 179 \<or> n = 185)"

datatype Token = Token (token_type: TokenType) (token_value: pyvalue)

record Lexer =
  "text" :: string
  pos :: nat
  current_char :: "char option"

definition Lexer_init :: "string \<Rightarrow> Lexer" where
  "Lexer_init t =
     \<lparr>text = t, pos = 0, current_char = (if t \<noteq> [] then Some (t ! 0) else None)\<rparr>"

definition advance :: "Lexer \<Rightarrow> Lexer" where
  "advance l =
     (let p = pos l + 1
      in l\<lparr>pos := p,
           current_char := (if p < length (text l) then Some (text l ! p) else None)\<rparr>)"

definition lexer_measure :: "Lexer \<Rightarrow> nat" where
  "lexer_measure l =
     (length (text l) - pos l) + (if current_char l = None then 0 else 1)"

lemma advance_measure:
  "current_char l \<noteq> None \<Longrightarrow> lexer_measure (advance l) < lexer_measure l"
  by (auto simp: lexer_measure_def advance_def Let_def)

function skip_whitespace :: "Lexer \<Rightarrow> Lexer" where
  "skip_whitespace l =
     (if current_char l \<noteq> None \<and> isspace (the (current_char l))
      then skip_whitespace (advance l)
      else l)"
  by pat_completeness auto
termination
  by (relation "measure lexer_measure") (auto simp: advance_measure)

declare skip_whitespace.simps [simp del]

function number_loop :: "Lexer \<Rightarrow> string \<Rightarrow> string \<times> Lexer" where
  "number_loop l result =
     (if current_char l \<noteq> None
         \<and> (isdigit (the (current_char l)) \<or> the (current_char l) = CHR ''.'')
      then number_loop (advance l) (result @ [the (current_char l)])
      else (result, l))"
  by pat_completeness auto
termination
  by (relation "measure (\<lambda>(l, r). lexer_measure l)") (auto simp: advance_measure)

declare number_loop.simps [simp del]

definition number :: "Lexer \<Rightarrow> error + Token \<times> Lexer" where
  "number l =
     (case number_loop l [] of
        (result, l') \<Rightarrow>
          if CHR ''.'' \<in> set result
          then (case py_float result of
                  Inl e \<Rightarrow> Inl e
                | Inr f \<Rightarrow> Inr (Token NUMBER (FloatV f), l'))
          else (case py_int result of
                  Inl e \<Rightarrow> Inl e
                | Inr n \<Rightarrow> Inr (Token NUMBER (IntV n), l')))"

lemma skip_whitespace_measure:
  "lexer_measure (skip_whitespace l) \<le> lexer_measure l"
proof (induction l rule: skip_whitespace.induct)
  case (1 l)
  show ?case
  proof (cases "current_char l \<noteq> None \<and> isspace (the (current_char l))")
    case True
    with 1 have "lexer_measure (skip_whitespace (advance l)) \<le> lexer_measure (advance l)"
      by simp
    moreover from True have "lexer_measure (advance l) < lexer_measure l"
      by (simp add: advance_measure)
    moreover from True have "skip_whitespace l = skip_whitespace (advance l)"
      by (subst skip_whitespace.simps) simp
    ultimately show ?thesis by simp
  next
    case False
    then have "skip_whitespace l = l"
      by (subst skip_whitespace.simps) auto
    then show ?thesis by simp
  qed
qed

lemma skip_whitespace_progress:
  assumes "current_char l = Some c" and "isspace c"
  shows "lexer_measure (skip_whitespace l) < lexer_measure l"
proof -
  from assms have "skip_whitespace l = skip_whitespace (advance l)"
    by (subst skip_whitespace.simps) simp
  moreover have "lexer_measure (skip_whitespace (advance l)) \<le> lexer_measure (advance l)"
    by (rule skip_whitespace_measure)
  moreover from assms have "lexer_measure (advance l) < lexer_measure l"
    by (simp add: advance_measure)
  ultimately show ?thesis by simp
qed

function get_next_token :: "Lexer \<Rightarrow> error + Token \<times> Lexer" where
  "get_next_token l =
     (case current_char l of
        None \<Rightarrow> Inr (Token EOF NoneV, l)
      | Some c \<Rightarrow>
          if isspace c then get_next_token (skip_whitespace l)
          else if isdigit c \<or> c = CHR ''.'' then number l
          else if c = CHR ''+'' then Inr (Token PLUS (StrV ''+''), advance l)
          else if c = CHR ''-'' then Inr (Token MINUS (StrV ''-''), advance l)
          else if c = CHR ''*'' then Inr (Token MUL (StrV ''*''), advance l)
          else if c = CHR ''/'' then Inr (Token DIV (StrV ''/''), advance l)
          else if c = CHR ''^'' then Inr (Token POW (StrV ''^''), advance l)
          else if c = CHR ''('' then Inr (Token LPAREN (StrV ''(''), advance l)
          else if c = CHR '')'' then Inr (Token RPAREN (StrV '')''), advance l)
          else Inl (LexicalError c (pos l)))"
  by pat_completeness auto
termination
  by (relation "measure lexer_measure") (auto simp: skip_whitespace_progress)

declare get_next_token.simps [simp del]


lemma number_loop_measure:
  "number_loop l r = (res, l') \<Longrightarrow> lexer_measure l' \<le> lexer_measure l"
proof (induction l r arbitrary: res l' rule: number_loop.induct)
  case (1 l result)
  show ?case
  proof (cases "current_char l \<noteq> None
      \<and> (isdigit (the (current_char l)) \<or> the (current_char l) = CHR ''.'')")
    case True
    with "1.prems" have "number_loop (advance l) (result @ [the (current_char l)]) = (res, l')"
      by (subst (asm) number_loop.simps) simp
    with 1 True have "lexer_measure l' \<le> lexer_measure (advance l)"
      by blast
    moreover from True have "lexer_measure (advance l) < lexer_measure l"
      by (simp add: advance_measure)
    ultimately show ?thesis by simp
  next
    case False
    with "1.prems" have "l' = l"
      by (subst (asm) number_loop.simps) auto
    then show ?thesis by simp
  qed
qed

lemma number_loop_progress:
  assumes "number_loop l r = (res, l')" and "current_char l = Some c"
    and "isdigit c \<or> c = CHR ''.''"
  shows "lexer_measure l' < lexer_measure l"
proof -
  from assms have "number_loop (advance l) (r @ [c]) = (res, l')"
    by (subst (asm) number_loop.simps) simp
  then have "lexer_measure l' \<le> lexer_measure (advance l)"
    by (rule number_loop_measure)
  moreover from assms have "lexer_measure (advance l) < lexer_measure l"
    by (simp add: advance_measure)
  ultimately show ?thesis by simp
qed

lemma number_progress:
  assumes "number l = Inr (tok, l')" and "current_char l = Some c"
    and "isdigit c \<or> c = CHR ''.''"
  shows "lexer_measure l' < lexer_measure l"
proof -
  obtain res l1 where nl: "number_loop l [] = (res, l1)"
    by (cases "number_loop l []") auto
  with assms(1) have "l' = l1"
    by (auto simp: number_def split: if_splits sum.splits)
  with nl assms(2,3) show ?thesis
    by (auto dest: number_loop_progress)
qed

lemma get_next_token_measure:
  "get_next_token l = Inr (tok, l') \<Longrightarrow>
     lexer_measure l' \<le> lexer_measure l
     \<and> (token_type tok \<noteq> EOF \<longrightarrow> lexer_measure l' < lexer_measure l)"
proof (induction l arbitrary: tok l' rule: get_next_token.induct)
  case (1 l)
  show ?case
  proof (cases "current_char l")
    case None
    with "1.prems" show ?thesis
      by (subst (asm) get_next_token.simps) auto
  next
    case (Some c)
    show ?thesis
    proof (cases "isspace c")
      case True
      with Some "1.prems" have "get_next_token (skip_whitespace l) = Inr (tok, l')"
        by (subst (asm) get_next_token.simps) simp
      with "1.IH" Some True
      have "lexer_measure l' \<le> lexer_measure (skip_whitespace l)
         \<and> (token_type tok \<noteq> EOF \<longrightarrow> lexer_measure l' < lexer_measure (skip_whitespace l))"
        by blast
      moreover have "lexer_measure (skip_whitespace l) \<le> lexer_measure l"
        by (rule skip_whitespace_measure)
      ultimately show ?thesis by auto
    next
      case False
      note nospace = this
      show ?thesis
      proof (cases "isdigit c \<or> c = CHR ''.''")
        case True
        with Some nospace "1.prems" have "number l = Inr (tok, l')"
          by (subst (asm) get_next_token.simps) simp
        then have "lexer_measure l' < lexer_measure l"
          using Some True by (rule number_progress)
        then show ?thesis by simp
      next
        case False
        with Some nospace "1.prems" have "l' = advance l"
          by (subst (asm) get_next_token.simps) (auto split: if_splits)
        moreover from Some have "lexer_measure (advance l) < lexer_measure l"
          by (simp add: advance_measure)
        ultimately show ?thesis by simp
      qed
    qed
  qed
qed

function tokenize_loop :: "Lexer \<Rightarrow> Token \<Rightarrow> Token list \<Rightarrow> error + Token list \<times> Lexer" where
  "tokenize_loop l token tokens =
     (if token_type token \<noteq> EOF
      then (case get_next_token l of
              Inl e \<Rightarrow> Inl e
            | Inr (token', l') \<Rightarrow> tokenize_loop l' token' (tokens @ [token]))
      else Inr (tokens, l))"
  by pat_completeness auto
termination
proof (relation "measure (\<lambda>(l, token, tokens).
    lexer_measure l + (if token_type token = EOF then 0 else 1))", goal_cases)
  case 1
  show ?case by simp
next
  case (2 l token tokens x2 token' l')
  then have "get_next_token l = Inr (token', l')" by simp
  from get_next_token_measure [OF this] 2 show ?case by auto
qed

declare tokenize_loop.simps [simp del]

definition tokenize :: "Lexer \<Rightarrow> error + Token list \<times> Lexer" where
  \<comment> \<open>the tokens before the end of input, and the lexer as the call leaves it\<close>
  "tokenize l =
     (case get_next_token l of
        Inl e \<Rightarrow> Inl e
      | Inr (token, l') \<Rightarrow> tokenize_loop l' token [])"

section \<open>AST nodes\<close>

text \<open>
  A \<open>NumberNode\<close> keeps its token; its field \<open>value\<close> is the value of that token.
  A \<open>BinOpNode\<close> keeps its left subtree, its operator token and its right subtree.
\<close>

datatype node = NumberNode Token | BinOpNode node Token node

section \<open>Syntax analyzer\<close>

text \<open>
  The parser owns a lexer and holds one token of lookahead. Its grammar rules call one
  another recursively; each rule takes a bound on the depth of calls below it and
  returns \<open>None\<close> when the bound is used up. \<open>parse\<close> starts with a bound that is never
  used up (theorem \<open>parse_returns\<close>).
\<close>

record Parser =
  lexer :: Lexer
  current_token :: Token

definition Parser_init :: "Lexer \<Rightarrow> error + Parser" where
  "Parser_init l =
     (case get_next_token l of
        Inl e \<Rightarrow> Inl e
      | Inr (token, l') \<Rightarrow> Inr \<lparr>lexer = l', current_token = token\<rparr>)"

definition eat :: "TokenType \<Rightarrow> Parser \<Rightarrow> error + Parser" where
  "eat tt p =
     (if token_type (current_token p) = tt
      then (case get_next_token (lexer p) of
              Inl e \<Rightarrow> Inl e
            | Inr (token, l') \<Rightarrow> Inr \<lparr>lexer = l', current_token = token\<rparr>)
      else Inl (SyntaxError_Expected tt (token_type (current_token p))))"

fun Parser_power :: "nat \<Rightarrow> Parser \<Rightarrow> (error + node \<times> Parser) option"
  and Parser_factor :: "nat \<Rightarrow> Parser \<Rightarrow> (error + node \<times> Parser) option"
  and Parser_term :: "nat \<Rightarrow> Parser \<Rightarrow> (error + node \<times> Parser) option"
  and Parser_term_loop :: "nat \<Rightarrow> node \<Rightarrow> Parser \<Rightarrow> (error + node \<times> Parser) option"
  and Parser_expr :: "nat \<Rightarrow> Parser \<Rightarrow> (error + node \<times> Parser) option"
  and Parser_expr_loop :: "nat \<Rightarrow> node \<Rightarrow> Parser \<Rightarrow> (error + node \<times> Parser) option"
where
  "Parser_power 0 p = None"
| "Parser_power (Suc n) p =
     (let token = current_token p
      in if token_type token = NUMBER
         then (case eat NUMBER p of
                 Inl e \<Rightarrow> Some (Inl e)
               | Inr p1 \<Rightarrow> Some (Inr (NumberNode token, p1)))
         else if token_type token = LPAREN
         then (case eat LPAREN p of
                 Inl e \<Rightarrow> Some (Inl e)
               | Inr p1 \<Rightarrow>
                   (case Parser_expr n p1 of
                      None \<Rightarrow> None
                    | Some (Inl e) \<Rightarrow> Some (Inl e)
                    | Some (Inr (node, p2)) \<Rightarrow>
                        (case eat RPAREN p2 of
                           Inl e \<Rightarrow> Some (Inl e)
                         | Inr p3 \<Rightarrow> Some (Inr (node, p3)))))
         else Some (Inl (SyntaxError_Unexpected (token_type token))))"
| "Parser_factor 0 p = None"
| "Parser_factor (Suc n) p =
     (case Parser_power n p of
        None \<Rightarrow> None
      | Some (Inl e) \<Rightarrow> Some (Inl e)
      | Some (Inr (node, p1)) \<Rightarrow>
          if token_type (current_token p1) = POW
          then (let op = current_token p1
                in case eat POW p1 of
                     Inl e \<Rightarrow> Some (Inl e)
                   | Inr p2 \<Rightarrow>
                       (case Parser_factor n p2 of
                          None \<Rightarrow> None
                        | Some (Inl e) \<Rightarrow> Some (Inl e)
                        | Some (Inr (right, p3)) \<Rightarrow> Some (Inr (BinOpNode node op right, p3))))
          else Some (Inr (node, p1)))"
| "Parser_term 0 p = None"
| "Parser_term (Suc n) p =
     (case Parser_factor n p of
        None \<Rightarrow> None
      | Some (Inl e) \<Rightarrow> Some (Inl e)
      | Some (Inr (node, p1)) \<Rightarrow> Parser_term_loop n node p1)"
| "Parser_term_loop 0 node p = None"
| "Parser_term_loop (Suc n) node p =
     (let token = current_token p
      in if token_type token \<in> {MUL, DIV, LPAREN, NUMBER}
         then
           if token_type token = MUL
           then (case eat MUL p of
                   Inl e \<Rightarrow> Some (Inl e)
                 | Inr p1 \<Rightarrow>
                     (case Parser_factor n p1 of
                        None \<Rightarrow> None
                      | Some (Inl e) \<Rightarrow> Some (Inl e)
                      | Some (Inr (right, p2)) \<Rightarrow>
                          Parser_term_loop n (BinOpNode node token right) p2))
           else if token_type token = DIV
           then (case eat DIV p of
                   Inl e \<Rightarrow> Some (Inl e)
                 | Inr p1 \<Rightarrow>
                     (case Parser_factor n p1 of
                        None \<Rightarrow> None
                      | Some (Inl e) \<Rightarrow> Some (Inl e)
                      | Some (Inr (right, p2)) \<Rightarrow>
                          Parser_term_loop n (BinOpNode node token right) p2))
           else
             (let virtual_op = Token MUL (StrV ''*'')
              in case Parser_factor n p of
                   None \<Rightarrow> None
                 | Some (Inl e) \<Rightarrow> Some (Inl e)
                 | Some (Inr (right, p2)) \<Rightarrow>
                     Parser_term_loop n (BinOpNode node virtual_op right) p2)
         else Some (Inr (node, p)))"
| "Parser_expr 0 p = None"
| "Parser_expr (Suc n) p =
     (case Parser_term n p of
        None \<Rightarrow> None
      | Some (Inl e) \<Rightarrow> Some (Inl e)
      | Some (Inr (node, p1)) \<Rightarrow> Parser_expr_loop n node p1)"
| "Parser_expr_loop 0 node p = None"
| "Parser_expr_loop (Suc n) node p =
     (let token = current_token p
      in if token_type token \<in> {PLUS, MINUS}
         then (case (if token_type token = PLUS then eat PLUS p else eat MINUS p) of
                 Inl e \<Rightarrow> Some (Inl e)
               | Inr p1 \<Rightarrow>
                   (case Parser_term n p1 of
                      None \<Rightarrow> None
                    | Some (Inl e) \<Rightarrow> Some (Inl e)
                    | Some (Inr (right, p2)) \<Rightarrow>
                        Parser_expr_loop n (BinOpNode node token right) p2))
         else Some (Inr (node, p)))"

definition Parser_parse :: "nat \<Rightarrow> Parser \<Rightarrow> (error + node \<times> Parser) option" where
  "Parser_parse n p =
     (case Parser_expr n p of
        None \<Rightarrow> None
      | Some (Inl e) \<Rightarrow> Some (Inl e)
      | Some (Inr (node, p1)) \<Rightarrow>
          if token_type (current_token p1) \<noteq> EOF then Some (Inl SyntaxError_EndExpected)
          else Some (Inr (node, p1)))"

definition parse :: "string \<Rightarrow> (error + node) option" where
  \<comment> \<open>\<open>Parser(Lexer(text)).parse()\<close>\<close>
  "parse t =
     (case Parser_init (Lexer_init t) of
        Inl e \<Rightarrow> Some (Inl e)
      | Inr p \<Rightarrow>
          (case Parser_parse (4 * length t + 8) p of
             None \<Rightarrow> None
           | Some (Inl e) \<Rightarrow> Some (Inl e)
           | Some (Inr (node, p1)) \<Rightarrow> Some (Inr node)))"

section \<open>The parser always returns\<close>

text \<open>
  Every grammar rule consumes input before it calls itself again, so the depth of calls
  is bounded by the text that is left. \<open>parser_measure\<close> counts what is left: the
  characters the lexer has not read, and the lookahead token unless it is \<open>EOF\<close>.
  With a bound of four calls for each unit of the measure no rule runs out, and a larger
  bound changes nothing.
\<close>

definition parser_measure :: "Parser \<Rightarrow> nat" where
  "parser_measure p =
     lexer_measure (lexer p) + (if token_type (current_token p) = EOF then 0 else 1)"

definition returns_below :: "(error + node \<times> Parser) option \<Rightarrow> nat \<Rightarrow> bool" where
  "returns_below r m =
     (\<exists>x. r = Some x \<and> (\<forall>node p'. x = Inr (node, p') \<longrightarrow> parser_measure p' < m))"

lemma returns_below_cases:
  assumes "returns_below r m"
  obtains (failed) e where "r = Some (Inl e)"
  | (parsed) node p' where "r = Some (Inr (node, p'))" and "parser_measure p' < m"
proof -
  from assms obtain x where x: "r = Some x"
    and lt: "\<forall>node p'. x = Inr (node, p') \<longrightarrow> parser_measure p' < m"
    by (auto simp: returns_below_def)
  show thesis
  proof (cases x)
    case (Inl e)
    with x show ?thesis by (simp add: failed)
  next
    case (Inr np)
    then obtain node p' where "x = Inr (node, p')" by (cases np) simp
    with x lt show ?thesis by (simp add: parsed)
  qed
qed

lemma returns_below_error [simp]: "returns_below (Some (Inl e)) m"
  by (simp add: returns_below_def)

lemma returns_below_value [simp]:
  "returns_below (Some (Inr (node, p))) m = (parser_measure p < m)"
  by (simp add: returns_below_def)

lemma returns_below_mono: "returns_below r m \<Longrightarrow> m \<le> m' \<Longrightarrow> returns_below r m'"
  by (auto simp: returns_below_def)

lemma eat_cases:
  obtains (failed) e where "eat tt p = Inl e"
  | (eaten) p' where "eat tt p = Inr p'"
      and "tt \<noteq> EOF \<Longrightarrow> parser_measure p' < parser_measure p"
proof (cases "eat tt p")
  case (Inl e)
  then show ?thesis by (rule failed)
next
  case (Inr p')
  have "parser_measure p' < parser_measure p" if "tt \<noteq> EOF"
  proof -
    from Inr have ty: "token_type (current_token p) = tt"
      by (simp add: eat_def split: if_splits)
    with Inr obtain tok l' where g: "get_next_token (lexer p) = Inr (tok, l')"
      and p': "p' = \<lparr>lexer = l', current_token = tok\<rparr>"
      by (auto simp: eat_def split: sum.splits)
    from get_next_token_measure [OF g] ty that p' show ?thesis
      by (auto simp: parser_measure_def)
  qed
  with Inr show ?thesis by (rule eaten)
qed

lemma parser_fuel_enough:
  "(\<forall>p. 4 * parser_measure p + 1 \<le> n
        \<longrightarrow> returns_below (Parser_power n p) (parser_measure p))
   \<and> (\<forall>p. 4 * parser_measure p + 2 \<le> n
        \<longrightarrow> returns_below (Parser_factor n p) (parser_measure p))
   \<and> (\<forall>p. 4 * parser_measure p + 3 \<le> n
        \<longrightarrow> returns_below (Parser_term n p) (parser_measure p))
   \<and> (\<forall>node p. 4 * parser_measure p + 3 \<le> n
        \<longrightarrow> returns_below (Parser_term_loop n node p) (Suc (parser_measure p)))
   \<and> (\<forall>p. 4 * parser_measure p + 4 \<le> n
        \<longrightarrow> returns_below (Parser_expr n p) (parser_measure p))
   \<and> (\<forall>node p. 4 * parser_measure p + 4 \<le> n
        \<longrightarrow> returns_below (Parser_expr_loop n node p) (Suc (parser_measure p)))"
proof (induction n)
  case 0
  show ?case by simp
next
  case (Suc n)
  then have ih_power: "\<And>p. 4 * parser_measure p + 1 \<le> n
        \<Longrightarrow> returns_below (Parser_power n p) (parser_measure p)"
    and ih_factor: "\<And>p. 4 * parser_measure p + 2 \<le> n
        \<Longrightarrow> returns_below (Parser_factor n p) (parser_measure p)"
    and ih_term: "\<And>p. 4 * parser_measure p + 3 \<le> n
        \<Longrightarrow> returns_below (Parser_term n p) (parser_measure p)"
    and ih_term_loop: "\<And>node p. 4 * parser_measure p + 3 \<le> n
        \<Longrightarrow> returns_below (Parser_term_loop n node p) (Suc (parser_measure p))"
    and ih_expr: "\<And>p. 4 * parser_measure p + 4 \<le> n
        \<Longrightarrow> returns_below (Parser_expr n p) (parser_measure p)"
    and ih_expr_loop: "\<And>node p. 4 * parser_measure p + 4 \<le> n
        \<Longrightarrow> returns_below (Parser_expr_loop n node p) (Suc (parser_measure p))"
    by blast+
  have power: "returns_below (Parser_power (Suc n) p) (parser_measure p)"
    if fuel: "4 * parser_measure p + 1 \<le> Suc n" for p
  proof (cases "token_type (current_token p) = NUMBER")
    case True
    show ?thesis
    proof (cases NUMBER p rule: eat_cases)
      case (failed e)
      with True show ?thesis by simp
    next
      case (eaten p1)
      with True show ?thesis by simp
    qed
  next
    case False
    note nonumber = this
    show ?thesis
    proof (cases "token_type (current_token p) = LPAREN")
      case False
      with nonumber show ?thesis by simp
    next
      case True
      show ?thesis
      proof (cases LPAREN p rule: eat_cases)
        case (failed e)
        with True show ?thesis by simp
      next
        case (eaten p1)
        then have m1: "parser_measure p1 < parser_measure p" by simp
        with fuel have "4 * parser_measure p1 + 4 \<le> n" by simp
        then have "returns_below (Parser_expr n p1) (parser_measure p1)" by (rule ih_expr)
        then show ?thesis
        proof (cases rule: returns_below_cases)
          case (failed e)
          with True eaten(1) show ?thesis by simp
        next
          case (parsed node p2)
          show ?thesis
          proof (cases RPAREN p2 rule: eat_cases)
            case (failed e)
            with True eaten(1) parsed(1) show ?thesis by simp
          next
            case inner: (eaten p3)
            then have "parser_measure p3 < parser_measure p2" by simp
            with parsed(2) m1 have "parser_measure p3 < parser_measure p" by simp
            with True eaten(1) parsed(1) inner(1) show ?thesis by simp
          qed
        qed
      qed
    qed
  qed
  have factor: "returns_below (Parser_factor (Suc n) p) (parser_measure p)"
    if fuel: "4 * parser_measure p + 2 \<le> Suc n" for p
  proof -
    from fuel have "4 * parser_measure p + 1 \<le> n" by simp
    then have "returns_below (Parser_power n p) (parser_measure p)" by (rule ih_power)
    then show ?thesis
    proof (cases rule: returns_below_cases)
      case (failed e)
      then show ?thesis by simp
    next
      case (parsed node p1)
      show ?thesis
      proof (cases "token_type (current_token p1) = POW")
        case False
        with parsed show ?thesis by simp
      next
        case True
        show ?thesis
        proof (cases POW p1 rule: eat_cases)
          case (failed e)
          with True parsed(1) show ?thesis by simp
        next
          case (eaten p2)
          then have m2: "parser_measure p2 < parser_measure p1" by simp
          with parsed(2) fuel have "4 * parser_measure p2 + 2 \<le> n" by simp
          then have "returns_below (Parser_factor n p2) (parser_measure p2)"
            by (rule ih_factor)
          then show ?thesis
          proof (cases rule: returns_below_cases)
            case (failed e)
            with True parsed(1) eaten(1) show ?thesis by simp
          next
            case inner: (parsed right p3)
            with m2 parsed(2) have "parser_measure p3 < parser_measure p" by simp
            with True parsed(1) eaten(1) inner(1) show ?thesis by simp
          qed
        qed
      qed
    qed
  qed
  have term_loop: "returns_below (Parser_term_loop (Suc n) node p) (Suc (parser_measure p))"
    if fuel: "4 * parser_measure p + 3 \<le> Suc n" for node p
  proof -
    have continue: "returns_below
        (case Parser_factor n p1 of
           None \<Rightarrow> None
         | Some (Inl e) \<Rightarrow> Some (Inl e)
         | Some (Inr (right, p2)) \<Rightarrow> Parser_term_loop n (BinOpNode node tok right) p2)
        (Suc (parser_measure p))"
      if le: "parser_measure p1 \<le> parser_measure p" for p1 tok
    proof -
      from le fuel have "4 * parser_measure p1 + 2 \<le> n" by simp
      then have "returns_below (Parser_factor n p1) (parser_measure p1)" by (rule ih_factor)
      then show ?thesis
      proof (cases rule: returns_below_cases)
        case (failed e)
        then show ?thesis by simp
      next
        case (parsed right p2)
        with le fuel have "4 * parser_measure p2 + 3 \<le> n" by simp
        then have "returns_below (Parser_term_loop n (BinOpNode node tok right) p2)
            (Suc (parser_measure p2))"
          by (rule ih_term_loop)
        then have "returns_below (Parser_term_loop n (BinOpNode node tok right) p2)
            (Suc (parser_measure p))"
          using parsed(2) le by (auto intro: returns_below_mono)
        with parsed(1) show ?thesis by simp
      qed
    qed
    show ?thesis
    proof (cases "token_type (current_token p) \<in> {MUL, DIV, LPAREN, NUMBER}")
      case False
      then show ?thesis by simp
    next
      case True
      note inset = this
      show ?thesis
      proof (cases "token_type (current_token p) = MUL")
        case True
        show ?thesis
        proof (cases MUL p rule: eat_cases)
          case (failed e)
          with True show ?thesis by simp
        next
          case (eaten p1)
          then have "parser_measure p1 \<le> parser_measure p" by simp
          from continue [OF this, of "current_token p"] True eaten(1) show ?thesis
            by simp
        qed
      next
        case False
        note nomul = this
        show ?thesis
        proof (cases "token_type (current_token p) = DIV")
          case True
          show ?thesis
          proof (cases DIV p rule: eat_cases)
            case (failed e)
            with True show ?thesis by simp
          next
            case (eaten p1)
            then have "parser_measure p1 \<le> parser_measure p" by simp
            from continue [OF this, of "current_token p"] True eaten(1) show ?thesis
              by simp
          qed
        next
          case False
          from continue [of p "Token MUL (StrV ''*'')"] inset nomul False show ?thesis
            by simp
        qed
      qed
    qed
  qed
  have "term": "returns_below (Parser_term (Suc n) p) (parser_measure p)"
    if fuel: "4 * parser_measure p + 3 \<le> Suc n" for p
  proof -
    from fuel have "4 * parser_measure p + 2 \<le> n" by simp
    then have "returns_below (Parser_factor n p) (parser_measure p)" by (rule ih_factor)
    then show ?thesis
    proof (cases rule: returns_below_cases)
      case (failed e)
      then show ?thesis by simp
    next
      case (parsed node p1)
      with fuel have "4 * parser_measure p1 + 3 \<le> n" by simp
      then have "returns_below (Parser_term_loop n node p1) (Suc (parser_measure p1))"
        by (rule ih_term_loop)
      then have "returns_below (Parser_term_loop n node p1) (parser_measure p)"
        using parsed(2) by (auto intro: returns_below_mono)
      with parsed(1) show ?thesis by simp
    qed
  qed
  have expr_loop: "returns_below (Parser_expr_loop (Suc n) node p) (Suc (parser_measure p))"
    if fuel: "4 * parser_measure p + 4 \<le> Suc n" for node p
  proof (cases "token_type (current_token p) \<in> {PLUS, MINUS}")
    case False
    then show ?thesis by simp
  next
    case True
    define tt where "tt = (if token_type (current_token p) = PLUS then PLUS else MINUS)"
    have e: "(if token_type (current_token p) = PLUS then eat PLUS p else eat MINUS p)
        = eat tt p"
      by (simp add: tt_def)
    have tt: "tt \<noteq> EOF" by (simp add: tt_def)
    show ?thesis
    proof (cases tt p rule: eat_cases)
      case (failed e')
      with True e show ?thesis by simp
    next
      case (eaten p1)
      with tt have m1: "parser_measure p1 < parser_measure p" by simp
      with fuel have "4 * parser_measure p1 + 3 \<le> n" by simp
      then have "returns_below (Parser_term n p1) (parser_measure p1)" by (rule ih_term)
      then show ?thesis
      proof (cases rule: returns_below_cases)
        case (failed e')
        with True e eaten(1) show ?thesis by simp
      next
        case (parsed right p2)
        with m1 fuel have "4 * parser_measure p2 + 4 \<le> n" by simp
        then have "returns_below
            (Parser_expr_loop n (BinOpNode node (current_token p) right) p2)
            (Suc (parser_measure p2))"
          by (rule ih_expr_loop)
        then have "returns_below
            (Parser_expr_loop n (BinOpNode node (current_token p) right) p2)
            (Suc (parser_measure p))"
          using parsed(2) m1 by (auto intro: returns_below_mono)
        with True e eaten(1) parsed(1) show ?thesis by simp
      qed
    qed
  qed
  have expr: "returns_below (Parser_expr (Suc n) p) (parser_measure p)"
    if fuel: "4 * parser_measure p + 4 \<le> Suc n" for p
  proof -
    from fuel have "4 * parser_measure p + 3 \<le> n" by simp
    then have "returns_below (Parser_term n p) (parser_measure p)" by (rule ih_term)
    then show ?thesis
    proof (cases rule: returns_below_cases)
      case (failed e)
      then show ?thesis by simp
    next
      case (parsed node p1)
      with fuel have "4 * parser_measure p1 + 4 \<le> n" by simp
      then have "returns_below (Parser_expr_loop n node p1) (Suc (parser_measure p1))"
        by (rule ih_expr_loop)
      then have "returns_below (Parser_expr_loop n node p1) (parser_measure p)"
        using parsed(2) by (auto intro: returns_below_mono)
      with parsed(1) show ?thesis by simp
    qed
  qed
  from power factor "term" term_loop expr expr_loop show ?case by blast
qed

lemma Parser_init_measure:
  assumes "Parser_init (Lexer_init t) = Inr p"
  shows "parser_measure p \<le> length t + 1"
proof -
  from assms obtain tok l' where g: "get_next_token (Lexer_init t) = Inr (tok, l')"
    and p: "p = \<lparr>lexer = l', current_token = tok\<rparr>"
    by (auto simp: Parser_init_def split: sum.splits)
  have "lexer_measure (Lexer_init t) \<le> length t + 1"
    by (simp add: lexer_measure_def Lexer_init_def)
  with get_next_token_measure [OF g] p show ?thesis
    by (auto simp: parser_measure_def)
qed

theorem parse_returns: "\<exists>r. parse t = Some r"
proof (cases "Parser_init (Lexer_init t)")
  case (Inl e)
  then show ?thesis by (simp add: parse_def)
next
  case (Inr p)
  then have "parser_measure p \<le> length t + 1" by (rule Parser_init_measure)
  then have "4 * parser_measure p + 4 \<le> 4 * length t + 8" by simp
  with parser_fuel_enough [of "4 * length t + 8"]
  have "returns_below (Parser_expr (4 * length t + 8) p) (parser_measure p)" by blast
  then obtain x where "Parser_expr (4 * length t + 8) p = Some x"
    by (auto simp: returns_below_def)
  with Inr show ?thesis
    by (cases x) (auto simp: parse_def Parser_parse_def split: prod.splits)
qed

lemmas parser_simps =
  Parser_power.simps Parser_factor.simps Parser_term.simps Parser_term_loop.simps
  Parser_expr.simps Parser_expr_loop.simps

lemma parser_fuel_step:
  "(\<forall>p. Parser_power n p \<noteq> None \<longrightarrow> Parser_power (Suc n) p = Parser_power n p)
   \<and> (\<forall>p. Parser_factor n p \<noteq> None \<longrightarrow> Parser_factor (Suc n) p = Parser_factor n p)
   \<and> (\<forall>p. Parser_term n p \<noteq> None \<longrightarrow> Parser_term (Suc n) p = Parser_term n p)
   \<and> (\<forall>node p. Parser_term_loop n node p \<noteq> None
        \<longrightarrow> Parser_term_loop (Suc n) node p = Parser_term_loop n node p)
   \<and> (\<forall>p. Parser_expr n p \<noteq> None \<longrightarrow> Parser_expr (Suc n) p = Parser_expr n p)
   \<and> (\<forall>node p. Parser_expr_loop n node p \<noteq> None
        \<longrightarrow> Parser_expr_loop (Suc n) node p = Parser_expr_loop n node p)"
proof (induction n)
  case 0
  show ?case by simp
next
  case (Suc n)
  then have ih_power: "\<And>p. Parser_power n p \<noteq> None
        \<Longrightarrow> Parser_power (Suc n) p = Parser_power n p"
    and ih_factor: "\<And>p. Parser_factor n p \<noteq> None
        \<Longrightarrow> Parser_factor (Suc n) p = Parser_factor n p"
    and ih_term: "\<And>p. Parser_term n p \<noteq> None
        \<Longrightarrow> Parser_term (Suc n) p = Parser_term n p"
    and ih_term_loop: "\<And>node p. Parser_term_loop n node p \<noteq> None
        \<Longrightarrow> Parser_term_loop (Suc n) node p = Parser_term_loop n node p"
    and ih_expr: "\<And>p. Parser_expr n p \<noteq> None
        \<Longrightarrow> Parser_expr (Suc n) p = Parser_expr n p"
    and ih_expr_loop: "\<And>node p. Parser_expr_loop n node p \<noteq> None
        \<Longrightarrow> Parser_expr_loop (Suc n) node p = Parser_expr_loop n node p"
    by blast+
  have power: "Parser_power (Suc (Suc n)) p = Parser_power (Suc n) p"
    if "Parser_power (Suc n) p \<noteq> None" for p
    using that
    apply (simp only: Parser_power.simps(2) [of n p] Parser_power.simps(2) [of "Suc n" p])
    by (auto simp: Let_def ih_expr simp del: parser_simps
        split: sum.splits option.splits if_splits)
  have factor: "Parser_factor (Suc (Suc n)) p = Parser_factor (Suc n) p"
    if "Parser_factor (Suc n) p \<noteq> None" for p
    using that
    apply (simp only: Parser_factor.simps(2) [of n p] Parser_factor.simps(2) [of "Suc n" p])
    by (auto simp: Let_def ih_power ih_factor simp del: parser_simps
        split: sum.splits option.splits if_splits)
  have "term": "Parser_term (Suc (Suc n)) p = Parser_term (Suc n) p"
    if "Parser_term (Suc n) p \<noteq> None" for p
    using that
    apply (simp only: Parser_term.simps(2) [of n p] Parser_term.simps(2) [of "Suc n" p])
    by (auto simp: ih_factor ih_term_loop simp del: parser_simps
        split: sum.splits option.splits)
  have term_loop: "Parser_term_loop (Suc (Suc n)) node p = Parser_term_loop (Suc n) node p"
    if "Parser_term_loop (Suc n) node p \<noteq> None" for node p
    using that
    apply (simp only: Parser_term_loop.simps(2) [of n node p] Parser_term_loop.simps(2) [of "Suc n" node p])
    by (auto simp: Let_def ih_factor ih_term_loop simp del: parser_simps
        split: sum.splits option.splits if_splits)
  have expr: "Parser_expr (Suc (Suc n)) p = Parser_expr (Suc n) p"
    if "Parser_expr (Suc n) p \<noteq> None" for p
    using that
    apply (simp only: Parser_expr.simps(2) [of n p] Parser_expr.simps(2) [of "Suc n" p])
    by (auto simp: ih_term ih_expr_loop simp del: parser_simps
        split: sum.splits option.splits)
  have expr_loop: "Parser_expr_loop (Suc (Suc n)) node p = Parser_expr_loop (Suc n) node p"
    if "Parser_expr_loop (Suc n) node p \<noteq> None" for node p
    using that
    apply (simp only: Parser_expr_loop.simps(2) [of n node p] Parser_expr_loop.simps(2) [of "Suc n" node p])
    by (auto simp: Let_def ih_term ih_expr_loop simp del: parser_simps
        split: sum.splits option.splits if_splits)
  from power factor "term" term_loop expr expr_loop show ?case by blast
qed

lemma Parser_expr_more_fuel:
  "Parser_expr n p = Some r \<Longrightarrow> n \<le> m \<Longrightarrow> Parser_expr m p = Some r"
proof (induction m)
  case 0
  then show ?case by simp
next
  case (Suc m)
  show ?case
  proof (cases "n = Suc m")
    case True
    with Suc.prems show ?thesis by simp
  next
    case False
    with Suc have "Parser_expr m p = Some r" by simp
    with parser_fuel_step [of m] show ?thesis by simp
  qed
qed

theorem parse_fuel_independent:
  assumes "Parser_init (Lexer_init t) = Inr p" and "4 * length t + 8 \<le> m"
  shows "Parser_parse m p = Parser_parse (4 * length t + 8) p"
proof -
  from assms(1) have "parser_measure p \<le> length t + 1" by (rule Parser_init_measure)
  then have "4 * parser_measure p + 4 \<le> 4 * length t + 8" by simp
  with parser_fuel_enough [of "4 * length t + 8"]
  have "returns_below (Parser_expr (4 * length t + 8) p) (parser_measure p)" by blast
  then obtain x where x: "Parser_expr (4 * length t + 8) p = Some x"
    by (auto simp: returns_below_def)
  from Parser_expr_more_fuel [OF x assms(2)] x show ?thesis
    by (simp add: Parser_parse_def)
qed

section \<open>Semantic evaluation\<close>

fun evaluate :: "(pyfloat \<Rightarrow> pyfloat \<Rightarrow> error + pyfloat) \<Rightarrow> node \<Rightarrow> error + pyvalue" where
  "evaluate host_pow (NumberNode token) = Inr (token_value token)"
| "evaluate host_pow (BinOpNode left op_token right) =
     (case evaluate host_pow left of
        Inl e \<Rightarrow> Inl e
      | Inr left_val \<Rightarrow>
          (case evaluate host_pow right of
             Inl e \<Rightarrow> Inl e
           | Inr right_val \<Rightarrow>
               (let op = token_type op_token
                in if op = PLUS then py_add left_val right_val
                   else if op = MINUS then py_sub left_val right_val
                   else if op = MUL then py_mul left_val right_val
                   else if op = DIV
                   then (if py_eq_zero right_val then Inl DivisionByZero
                         else py_truediv left_val right_val)
                   else if op = POW then math_pow host_pow left_val right_val
                   else Inl UnknownNode)))"


section \<open>Range of the conversion from int to float\<close>

lemma bit_length_0 [simp]: "bit_length 0 = 0"
  by (simp add: bit_length.simps)

lemma bit_length_pos: "0 < n \<Longrightarrow> bit_length n = Suc (bit_length (n div 2))"
  by (subst bit_length.simps) simp

lemma bit_length_upper: "n < 2 ^ bit_length n"
proof (induction n rule: bit_length.induct)
  case (1 n)
  show ?case
  proof (cases "n = 0")
    case True
    then show ?thesis by simp
  next
    case False
    with 1 have "n div 2 < 2 ^ bit_length (n div 2)" by simp
    then have "n < 2 * 2 ^ bit_length (n div 2)" by linarith
    with False show ?thesis by (simp add: bit_length_pos)
  qed
qed

lemma bit_length_lower: "0 < n \<Longrightarrow> 2 ^ (bit_length n - 1) \<le> n"
proof (induction n rule: bit_length.induct)
  case (1 n)
  show ?case
  proof (cases "n div 2 = 0")
    case True
    with "1.prems" have "n = 1" by (simp add: div_eq_0_iff) 
    then show ?thesis by (simp add: bit_length_pos)
  next
    case False
    then have pos: "0 < n div 2" by simp
    with 1 have "2 ^ (bit_length (n div 2) - 1) \<le> n div 2" by simp
    moreover from pos have "bit_length (n div 2) = Suc (bit_length (n div 2) - 1)"
      by (simp add: bit_length_pos)
    ultimately have "2 ^ bit_length (n div 2) \<le> 2 * (n div 2)"
      by (metis mult_le_mono2 power_Suc)
    then have "2 ^ bit_length (n div 2) \<le> n" by linarith
    with "1.prems" show ?thesis by (simp add: bit_length_pos)
  qed
qed

lemma bit_length_gt: "2 ^ k \<le> n \<Longrightarrow> k < bit_length n"
proof -
  assume "2 ^ k \<le> n"
  with bit_length_upper [of n] have "(2::nat) ^ k < 2 ^ bit_length n" by linarith
  then show ?thesis by (simp add: power_strict_increasing_iff)
qed


lemma bit_length_1 [simp]: "bit_length (Suc 0) = Suc 0"
  by (simp add: bit_length.simps)

lemma round_half_even_ge: "p div q \<le> round_half_even p q"
  by (simp add: round_half_even_def Let_def)


lemma floor_log2_int: "0 < p \<Longrightarrow> floor_log2 p (Suc 0) = int (bit_length p) - 1"
proof -
  assume pos: "0 < p"
  from pos have "1 \<le> bit_length p" using bit_length_gt [of 0 p] by simp
  moreover from pos have "2 ^ (bit_length p - 1) \<le> p" by (rule bit_length_lower)
  ultimately show ?thesis
    by (simp add: floor_log2_def Let_def nat_diff_distrib)
qed

lemma round_to_double_overflow:
  assumes "2 ^ 1024 \<le> p"
  shows "round_to_double neg p 1 = None"
proof -
  from assms have pos: "0 < p" by (metis gr0I not_less zero_less_numeral zero_less_power less_le_trans)
  from assms have bl: "1024 < bit_length p" by (rule bit_length_gt)
  define u where "u = bit_length p - 53"
  have fl: "floor_log2 p (Suc 0) - 52 = int u"
    using bl pos by (simp add: floor_log2_int u_def)
  have low: "2 ^ (bit_length p - 1) \<le> p" using pos by (rule bit_length_lower)
  have "bit_length p - 1 = 52 + u" using bl by (simp add: u_def)
  with low have "2 ^ 52 * 2 ^ u \<le> p" by (simp add: power_add)
  then have "2 ^ 52 \<le> p div 2 ^ u"
    by (simp add: less_eq_div_iff_mult_less_eq)
  then have "2 ^ 52 \<le> round_half_even p (2 ^ u)"
    using round_half_even_ge [of p "2 ^ u"] by linarith
  then have "52 < bit_length (round_half_even p (2 ^ u))" by (rule bit_length_gt)
  moreover have "972 \<le> u" using bl by (simp add: u_def)
  ultimately have "1024 < int (bit_length (round_half_even p (2 ^ u))) + int u" by linarith
  with pos fl show ?thesis
    by (simp add: round_to_double_def Let_def)
qed

lemma float_of_int_overflow: "2 ^ 1024 \<le> \<bar>n\<bar> \<Longrightarrow> float_of_int n = Inl OverflowError"
proof -
  assume "2 ^ 1024 \<le> \<bar>n\<bar>"
  then have "2 ^ 1024 \<le> nat \<bar>n\<bar>" by (simp add: le_nat_iff)
  then have "round_to_double (n < 0) (nat \<bar>n\<bar>) 1 = None"
    by (rule round_to_double_overflow)
  then show ?thesis
    unfolding float_of_int_def by (simp only: option.case)
qed




section \<open>Evaluating the program on given inputs\<close>

text \<open>
  \<open>whole_pow\<close> is one power function a platform may have: it raises a double to a whole,
  non-negative exponent by repeated multiplication. It serves as an instance of the
  parameter \<open>host_pow\<close>.
\<close>

fun float_power :: "pyfloat \<Rightarrow> nat \<Rightarrow> pyfloat" where
  "float_power x n =
     (if n = 0 then Finite False 1 0 else float_mul x (float_power x (n - 1)))"

declare float_power.simps [simp del]

definition whole_pow :: "pyfloat \<Rightarrow> pyfloat \<Rightarrow> error + pyfloat" where
  "whole_pow x y =
     (case y of
        Finite s m e \<Rightarrow>
          if \<not> s \<and> 0 \<le> e then Inr (float_power x (m * 2 ^ nat e)) else Inl ValueError
      | _ \<Rightarrow> Inl ValueError)"

abbreviation num :: "int \<Rightarrow> node" where
  "num n \<equiv> NumberNode (Token NUMBER (IntV n))"

abbreviation op_node :: "node \<Rightarrow> TokenType \<Rightarrow> string \<Rightarrow> node \<Rightarrow> node" where
  "op_node l t s r \<equiv> BinOpNode l (Token t (StrV s)) r"

lemmas lexer_eval =
  Lexer_init_def advance_def skip_whitespace.simps number_loop.simps number_def
  get_next_token.simps tokenize_loop.simps tokenize_def isspace_def isdigit_def
  py_int_def py_float_def is_ascii_digit_def digit_val_def digits_value_def Let_def

lemmas fuel_numeral =
  Parser_power.simps(2) [of "pred_numeral v", folded numeral_eq_Suc]
  Parser_factor.simps(2) [of "pred_numeral v", folded numeral_eq_Suc]
  Parser_term.simps(2) [of "pred_numeral v", folded numeral_eq_Suc]
  Parser_term_loop.simps(2) [of "pred_numeral v", folded numeral_eq_Suc]
  Parser_expr.simps(2) [of "pred_numeral v", folded numeral_eq_Suc]
  Parser_expr_loop.simps(2) [of "pred_numeral v", folded numeral_eq_Suc]
  for v

lemmas parser_eval = Parser_init_def eat_def Parser_parse_def parse_def fuel_numeral

lemma float_of_int_small:
  "float_of_int 0 = Inr (Finite False 0 0)"
  "float_of_int 2 = Inr (Finite False 1 1)"
  "float_of_int 3 = Inr (Finite False 3 0)"
  "float_of_int 5 = Inr (Finite False 5 0)"
  "float_of_int 9 = Inr (Finite False 9 0)"
  "float_of_int 25 = Inr (Finite False 25 0)"
  "float_of_int 28 = Inr (Finite False 7 2)"
  "float_of_int 512 = Inr (Finite False 1 9)"
  by (simp_all add: float_of_int_def float_eval)

lemma float_of_int_huge: "float_of_int (10 ^ 400) = Inl OverflowError"
  by (rule float_of_int_overflow) simp

lemma whole_pow_3_2:
  "whole_pow (Finite False 3 0) (Finite False 1 1) = Inr (Finite False 9 0)"
  by (simp add: whole_pow_def float_power.simps float_eval)

lemma whole_pow_2_9:
  "whole_pow (Finite False 1 1) (Finite False 9 0) = Inr (Finite False 1 9)"
  by (simp add: whole_pow_def float_power.simps float_eval)

lemma parse_pow_chain:
  "parse ''2 ^ 3 ^ 2'' =
     Some (Inr (op_node (num 2) POW ''^'' (op_node (num 3) POW ''^'' (num 2))))"
  by (simp add: lexer_eval parser_eval)

lemma parse_mixed:
  "parse ''3 + 5 * (10 / 2)'' =
     Some (Inr (op_node (num 3) PLUS ''+''
                 (op_node (num 5) MUL ''*'' (op_node (num 10) DIV ''/'' (num 2)))))"
  by (simp add: lexer_eval parser_eval)

lemma parse_div_zero:
  "parse ''5/0'' = Some (Inr (op_node (num 5) DIV ''/'' (num 0)))"
  by (simp add: lexer_eval parser_eval)

lemma parse_implicit:
  "parse ''3(4+5)'' =
     Some (Inr (op_node (num 3) MUL ''*'' (op_node (num 4) PLUS ''+'' (num 5))))"
  by (simp add: lexer_eval parser_eval)

lemma parse_explicit:
  "parse ''3*(4+5)'' =
     Some (Inr (op_node (num 3) MUL ''*'' (op_node (num 4) PLUS ''+'' (num 5))))"
  by (simp add: lexer_eval parser_eval)





section \<open>Exponentiation\<close>

text \<open>
  C1. Exponentiation is right-associative: the text \<open>2 ^ 3 ^ 2\<close> parses to the tree of
  \<open>2^(3^2)\<close>, not to that of \<open>(2^3)^2\<close> or \<open>(2^2)^3\<close>, and the tree evaluates to 512. The evaluator
  computes a power with the platform's \<open>pow\<close> on doubles, so the value is the double
  512.0; what is asked of the platform is that its \<open>pow\<close> gives \<open>3.0^2.0 = 9.0\<close> and
  \<open>2.0^9.0 = 512.0\<close>.
\<close>

theorem pow_right_associative:
  assumes "host_pow (Finite False 3 0) (Finite False 1 1) = Inr (Finite False 9 0)"
    and "host_pow (Finite False 1 1) (Finite False 9 0) = Inr (Finite False 1 9)"
  shows "parse ''2 ^ 3 ^ 2'' =
           Some (Inr (op_node (num 2) POW ''^'' (op_node (num 3) POW ''^'' (num 2))))
    \<and> parse ''2 ^ 3 ^ 2'' \<noteq>
           Some (Inr (op_node (op_node (num 2) POW ''^'' (num 3)) POW ''^'' (num 2)))
    \<and> parse ''2 ^ 3 ^ 2'' \<noteq>
           Some (Inr (op_node (op_node (num 2) POW ''^'' (num 2)) POW ''^'' (num 3)))
    \<and> evaluate host_pow (op_node (num 2) POW ''^'' (op_node (num 3) POW ''^'' (num 2)))
        = Inr (FloatV (Finite False 1 9))
    \<and> float_of_int 512 = Inr (Finite False 1 9)"
  using assms by (simp add: parse_pow_chain math_pow_def float_of_int_small)

theorem pow_right_associative_witness:
  "whole_pow (Finite False 3 0) (Finite False 1 1) = Inr (Finite False 9 0)
   \<and> whole_pow (Finite False 1 1) (Finite False 9 0) = Inr (Finite False 1 9)
   \<and> parse ''2 ^ 3 ^ 2'' =
        Some (Inr (op_node (num 2) POW ''^'' (op_node (num 3) POW ''^'' (num 2))))
   \<and> evaluate whole_pow (op_node (num 2) POW ''^'' (op_node (num 3) POW ''^'' (num 2)))
        = Inr (FloatV (Finite False 1 9))"
  using pow_right_associative [OF whole_pow_3_2 whole_pow_2_9] whole_pow_3_2 whole_pow_2_9
  by simp

section \<open>Division\<close>

lemma py_truediv_float: "py_truediv a b = Inr v \<Longrightarrow> \<exists>f. v = FloatV f"
  by (cases a; cases b) (auto split: sum.splits option.splits if_splits)

lemma evaluate_div_float:
  assumes "evaluate host_pow (BinOpNode left (Token DIV s) right) = Inr v"
  shows "\<exists>f. v = FloatV f"
  using assms by (auto split: sum.splits if_splits dest: py_truediv_float)

text \<open>
  C2. Division always produces a floating-point result, also for two integer operands:
  a division node that evaluates to a value evaluates to a \<open>float\<close>. The text
  \<open>3 + 5 * (10 / 2)\<close> evaluates to the double 28.0, through \<open>10/2 = 5.0\<close>,
  \<open>5*5.0 = 25.0\<close> and \<open>3+25.0 = 28.0\<close>.
\<close>

theorem division_yields_float:
  "parse ''3 + 5 * (10 / 2)'' =
     Some (Inr (op_node (num 3) PLUS ''+''
                 (op_node (num 5) MUL ''*'' (op_node (num 10) DIV ''/'' (num 2)))))
   \<and> evaluate host_pow
        (op_node (num 3) PLUS ''+''
          (op_node (num 5) MUL ''*'' (op_node (num 10) DIV ''/'' (num 2))))
       = Inr (FloatV (Finite False 7 2))
   \<and> float_of_int 28 = Inr (Finite False 7 2)
   \<and> py_truediv (IntV 10) (IntV 2) = Inr (FloatV (Finite False 5 0))
   \<and> py_mul (IntV 5) (FloatV (Finite False 5 0)) = Inr (FloatV (Finite False 25 0))
   \<and> py_add (IntV 3) (FloatV (Finite False 25 0)) = Inr (FloatV (Finite False 7 2))
   \<and> (\<forall>left right s v.
        evaluate host_pow (BinOpNode left (Token DIV s) right) = Inr v
        \<longrightarrow> (\<exists>f. v = FloatV f))"
proof -
  have steps:
    "py_truediv (IntV 10) (IntV 2) = Inr (FloatV (Finite False 5 0))"
    "py_mul (IntV 5) (FloatV (Finite False 5 0)) = Inr (FloatV (Finite False 25 0))"
    "py_add (IntV 3) (FloatV (Finite False 25 0)) = Inr (FloatV (Finite False 7 2))"
    by (simp_all add: float_of_int_small float_eval)
  then have "evaluate host_pow
        (op_node (num 3) PLUS ''+''
          (op_node (num 5) MUL ''*'' (op_node (num 10) DIV ''/'' (num 2))))
       = Inr (FloatV (Finite False 7 2))"
    by simp
  moreover have "\<forall>left right s v.
        evaluate host_pow (BinOpNode left (Token DIV s) right) = Inr v
        \<longrightarrow> (\<exists>f. v = FloatV f)"
    by (blast dest: evaluate_div_float)
  moreover note parse_mixed float_of_int_small(7) steps
  ultimately show ?thesis
    by blast
qed

theorem division_yields_float_witness:
  "evaluate whole_pow (BinOpNode (num 10) (Token DIV (StrV ''/'')) (num 2))
     = Inr (FloatV (Finite False 5 0))
   \<and> (\<exists>f. FloatV (Finite False 5 0) = FloatV f)
   \<and> evaluate whole_pow
        (op_node (num 3) PLUS ''+''
          (op_node (num 5) MUL ''*'' (op_node (num 10) DIV ''/'' (num 2))))
       = Inr (FloatV (Finite False 7 2))"
proof -
  have "evaluate whole_pow (BinOpNode (num 10) (Token DIV (StrV ''/'')) (num 2))
     = Inr (FloatV (Finite False 5 0))"
    by (simp add: float_eval)
  with division_yields_float [of whole_pow] show ?thesis
    by blast
qed


text \<open>
  C3 (as amended). A division node whose operands both evaluate and whose right operand
  is exactly zero (\<open>0\<close>, \<open>0.0\<close> or \<open>-0.0\<close>) fails with \<open>DivisionByZero\<close>. The left
  operand is evaluated first: when it fails, its own error is what the node reports.
  Either way the node returns no value, so neither infinity nor NaN. In particular
  \<open>5/0\<close> fails with \<open>DivisionByZero\<close>.
\<close>

theorem zero_divisor_fails:
  assumes "evaluate host_pow right = Inr right_val" and "py_eq_zero right_val"
  shows "(\<exists>e. evaluate host_pow (BinOpNode left (Token DIV s) right) = Inl e)
    \<and> (\<forall>left_val. evaluate host_pow left = Inr left_val
          \<longrightarrow> evaluate host_pow (BinOpNode left (Token DIV s) right) = Inl DivisionByZero)
    \<and> (\<forall>e. evaluate host_pow left = Inl e
          \<longrightarrow> evaluate host_pow (BinOpNode left (Token DIV s) right) = Inl e)
    \<and> parse ''5/0'' = Some (Inr (op_node (num 5) DIV ''/'' (num 0)))
    \<and> evaluate host_pow (op_node (num 5) DIV ''/'' (num 0)) = Inl DivisionByZero"
  using assms by (cases "evaluate host_pow left") (simp_all add: parse_div_zero)

theorem zero_divisor_fails_witness:
  "evaluate whole_pow (num 0) = Inr (IntV 0) \<and> py_eq_zero (IntV 0)
   \<and> evaluate whole_pow (num 5) = Inr (IntV 5)
   \<and> evaluate whole_pow (BinOpNode (num 5) (Token DIV (StrV ''/'')) (num 0))
       = Inl DivisionByZero"
proof -
  have h1: "evaluate whole_pow (num 0) = Inr (IntV 0)" by simp
  have h2: "py_eq_zero (IntV 0)" by simp
  have h3: "evaluate whole_pow (num 5) = Inr (IntV 5)" by simp
  from zero_divisor_fails [OF h1 h2, of "num 5" "StrV ''/''"] h3
  have "evaluate whole_pow (BinOpNode (num 5) (Token DIV (StrV ''/'')) (num 0))
       = Inl DivisionByZero"
    by blast
  with h1 h2 h3 show ?thesis by blast
qed

text \<open>
  The claim as first stated, for every division node whose right operand evaluates to
  zero, fails where the left operand raises: the sum of a 401-digit integer and \<open>0.5\<close>
  is an \<open>OverflowError\<close>, and that is what dividing it by \<open>0\<close> reports.
\<close>

theorem zero_divisor_counterexample:
  "evaluate whole_pow (num 0) = Inr (IntV 0) \<and> py_eq_zero (IntV 0)
   \<and> evaluate whole_pow
        (BinOpNode
           (BinOpNode (num (10 ^ 400)) (Token PLUS (StrV ''+''))
              (NumberNode (Token NUMBER (FloatV (Finite False 1 (- 1))))))
           (Token DIV (StrV ''/'')) (num 0))
       = Inl OverflowError
   \<and> Inl OverflowError \<noteq> (Inl DivisionByZero :: error + pyvalue)"
  by (simp add: float_of_int_overflow)

section \<open>Implicit multiplication\<close>

text \<open>
  C4. \<open>3(4+5)\<close> parses, to the same tree as \<open>3*(4+5)\<close>, and evaluates to 27. The parser
  never requires the \<open>*\<close>: where the term loop stands at a \<open>*\<close> token that is followed by
  a number or an opening parenthesis, it goes on exactly as from the state in which
  that \<open>*\<close> has been consumed and the number or parenthesis is the current token.
\<close>

theorem implicit_multiplication:
  "parse ''3(4+5)'' =
     Some (Inr (op_node (num 3) MUL ''*'' (op_node (num 4) PLUS ''+'' (num 5))))
   \<and> parse ''3*(4+5)'' = parse ''3(4+5)''
   \<and> evaluate host_pow (op_node (num 3) MUL ''*'' (op_node (num 4) PLUS ''+'' (num 5)))
       = Inr (IntV 27)
   \<and> (\<forall>n node p p1.
        current_token p = Token MUL (StrV ''*'') \<and> eat MUL p = Inr p1
          \<and> token_type (current_token p1) \<in> {NUMBER, LPAREN}
        \<longrightarrow> Parser_term_loop (Suc n) node p = Parser_term_loop (Suc n) node p1)"
proof -
  have "Parser_term_loop (Suc n) node p = Parser_term_loop (Suc n) node p1"
    if "current_token p = Token MUL (StrV ''*'')" and "eat MUL p = Inr p1"
      and "token_type (current_token p1) \<in> {NUMBER, LPAREN}"
    for n node p p1
    using that by (auto simp: Let_def)
  then show ?thesis
    by (simp add: parse_implicit parse_explicit del: Parser_term_loop.simps)
qed

theorem implicit_multiplication_witness:
  "current_token
      \<lparr>lexer = \<lparr>text = ''3*(4+5)'', pos = 2, current_char = Some CHR ''(''\<rparr>,
       current_token = Token MUL (StrV ''*'')\<rparr> = Token MUL (StrV ''*'')
   \<and> eat MUL
      \<lparr>lexer = \<lparr>text = ''3*(4+5)'', pos = 2, current_char = Some CHR ''(''\<rparr>,
       current_token = Token MUL (StrV ''*'')\<rparr>
     = Inr \<lparr>lexer = \<lparr>text = ''3*(4+5)'', pos = 3, current_char = Some CHR ''4''\<rparr>,
            current_token = Token LPAREN (StrV ''('')\<rparr>
   \<and> token_type (Token LPAREN (StrV ''('')) \<in> {NUMBER, LPAREN}
   \<and> Parser_term_loop (Suc 20) (num 3)
        \<lparr>lexer = \<lparr>text = ''3*(4+5)'', pos = 2, current_char = Some CHR ''(''\<rparr>,
         current_token = Token MUL (StrV ''*'')\<rparr>
     = Parser_term_loop (Suc 20) (num 3)
        \<lparr>lexer = \<lparr>text = ''3*(4+5)'', pos = 3, current_char = Some CHR ''4''\<rparr>,
         current_token = Token LPAREN (StrV ''('')\<rparr>"
proof -
  have h: "eat MUL
      \<lparr>lexer = \<lparr>text = ''3*(4+5)'', pos = 2, current_char = Some CHR ''(''\<rparr>,
       current_token = Token MUL (StrV ''*'')\<rparr>
     = Inr \<lparr>lexer = \<lparr>text = ''3*(4+5)'', pos = 3, current_char = Some CHR ''4''\<rparr>,
            current_token = Token LPAREN (StrV ''('')\<rparr>"
    by (simp add: eat_def lexer_eval)
  from implicit_multiplication [of whole_pow]
  have "\<forall>n node p p1.
        current_token p = Token MUL (StrV ''*'') \<and> eat MUL p = Inr p1
          \<and> token_type (current_token p1) \<in> {NUMBER, LPAREN}
        \<longrightarrow> Parser_term_loop (Suc n) node p = Parser_term_loop (Suc n) node p1"
    by (elim conjE)
  note general = this [rule_format]
  have "Parser_term_loop (Suc 20) (num 3)
        \<lparr>lexer = \<lparr>text = ''3*(4+5)'', pos = 2, current_char = Some CHR ''(''\<rparr>,
         current_token = Token MUL (StrV ''*'')\<rparr>
     = Parser_term_loop (Suc 20) (num 3)
        \<lparr>lexer = \<lparr>text = ''3*(4+5)'', pos = 3, current_char = Some CHR ''4''\<rparr>,
         current_token = Token LPAREN (StrV ''('')\<rparr>"
    by (rule general) (simp add: h)
  with h show ?thesis
    by (simp del: Parser_term_loop.simps)
qed

section \<open>Integer and floating-point operands\<close>




section \<open>Unbalanced parentheses\<close>





section \<open>Independent runs\<close>

text \<open>
  The state is per instance, and a run does change it: after \<open>tokenize\<close> the cursor of
  that lexer is at the end, and a second \<open>tokenize\<close> on the same instance finds no
  tokens. This is why the claim is about fresh instances.
\<close>

lemma get_next_token_EOF:
  "get_next_token l = Inr (tok, l') \<Longrightarrow> token_type tok = EOF \<Longrightarrow> current_char l' = None"
proof (induction l arbitrary: tok l' rule: get_next_token.induct)
  case (1 l)
  show ?case
  proof (cases "current_char l")
    case None
    with "1.prems" show ?thesis
      by (subst (asm) get_next_token.simps) auto
  next
    case (Some c)
    show ?thesis
    proof (cases "isspace c")
      case True
      with Some "1.prems" have "get_next_token (skip_whitespace l) = Inr (tok, l')"
        by (subst (asm) get_next_token.simps) simp
      with "1.IH" Some True "1.prems"(2) show ?thesis by blast
    next
      case False
      with Some "1.prems" show ?thesis
        by (subst (asm) get_next_token.simps)
          (auto simp: number_def split: if_splits sum.splits prod.splits)
    qed
  qed
qed

lemma tokenize_loop_final:
  "tokenize_loop l tok toks = Inr (ts, l') \<Longrightarrow> token_type tok = EOF \<longrightarrow> current_char l = None
     \<Longrightarrow> current_char l' = None"
proof (induction l tok toks arbitrary: ts l' rule: tokenize_loop.induct)
  case (1 l token tokens)
  show ?case
  proof (cases "token_type token = EOF")
    case True
    with "1.prems" show ?thesis
      by (subst (asm) tokenize_loop.simps) simp
  next
    case False
    with "1.prems"(1) obtain token' l1 where g: "get_next_token l = Inr (token', l1)"
      and t: "tokenize_loop l1 token' (tokens @ [token]) = Inr (ts, l')"
      by (subst (asm) tokenize_loop.simps) (auto split: sum.splits)
    from g have "token_type token' = EOF \<longrightarrow> current_char l1 = None"
      by (auto dest: get_next_token_EOF)
    with "1.IH" [OF False g refl t] show ?thesis by simp
  qed
qed

lemma tokenize_again:
  assumes "tokenize l = Inr (tokens, l')"
  shows "tokenize l' = Inr ([], l')"
proof -
  from assms obtain tok l1 where g: "get_next_token l = Inr (tok, l1)"
    and t: "tokenize_loop l1 tok [] = Inr (tokens, l')"
    by (auto simp: tokenize_def split: sum.splits)
  from g have "token_type tok = EOF \<longrightarrow> current_char l1 = None"
    by (auto dest: get_next_token_EOF)
  with t have "current_char l' = None" by (rule tokenize_loop_final)
  then have "get_next_token l' = Inr (Token EOF NoneV, l')"
    by (subst get_next_token.simps) simp
  then show ?thesis
    by (simp add: tokenize_def tokenize_loop.simps)
qed




section \<open>The lexer at a position of its text\<close>

text \<open>
  \<open>lexer_at t i\<close> is the lexer over the text \<open>t\<close> with its cursor at offset \<open>i\<close>.
  \<open>decimal n\<close> is the decimal numeral of \<open>n\<close>, the way an integer literal is written.
\<close>

definition lexer_at :: "string \<Rightarrow> nat \<Rightarrow> Lexer" where
  "lexer_at t i =
     \<lparr>text = t, pos = i, current_char = (if i < length t then Some (t ! i) else None)\<rparr>"


lemma Lexer_init_at: "Lexer_init t = lexer_at t 0"
  by (simp add: Lexer_init_def lexer_at_def)

lemma advance_at: "advance (lexer_at t i) = lexer_at t (Suc i)"
  by (simp add: advance_def lexer_at_def)

lemma lexer_at_simps [simp]:
  "text (lexer_at t i) = t"
  "pos (lexer_at t i) = i"
  "current_char (lexer_at t i) = (if i < length t then Some (t ! i) else None)"
  by (simp_all add: lexer_at_def)

lemma skip_whitespace_at:
  "skip_whitespace (lexer_at t i) = lexer_at t (i + length (takeWhile isspace (drop i t)))"
proof (induction "length t - i" arbitrary: i)
  case 0
  then show ?case
    by (subst skip_whitespace.simps) simp
next
  case (Suc k)
  then have lt: "i < length t" by simp
  then have d: "drop i t = t ! i # drop (Suc i) t"
    by (simp add: Cons_nth_drop_Suc)
  show ?case
  proof (cases "isspace (t ! i)")
    case True
    from Suc have "k = length t - Suc i" by simp
    then have "skip_whitespace (lexer_at t (Suc i))
        = lexer_at t (Suc i + length (takeWhile isspace (drop (Suc i) t)))"
      by (rule Suc.hyps(1))
    with True lt d show ?thesis
      by (subst skip_whitespace.simps) (simp add: advance_at)
  next
    case False
    with lt d show ?thesis
      by (subst skip_whitespace.simps) simp
  qed
qed


lemma get_next_token_skip:
  "get_next_token (lexer_at t i)
     = get_next_token (lexer_at t (i + length (takeWhile isspace (drop i t))))"
proof (cases "i < length t \<and> isspace (t ! i)")
  case True
  then show ?thesis
    by (subst get_next_token.simps) (simp add: skip_whitespace_at)
next
  case False
  then have "takeWhile isspace (drop i t) = []"
    by (cases "i < length t") (simp_all add: Cons_nth_drop_Suc [symmetric])
  then show ?thesis by simp
qed

lemma get_next_token_end:
  "length t \<le> i \<Longrightarrow> get_next_token (lexer_at t i) = Inr (Token EOF NoneV, lexer_at t i)"
  by (subst get_next_token.simps) simp



lemma get_next_token_spaces:
  assumes "list_all isspace ws"
  shows "get_next_token (lexer_at (pre @ ws) (length pre))
           = Inr (Token EOF NoneV, lexer_at (pre @ ws) (length pre + length ws))"
proof -
  from assms have tw: "takeWhile isspace ws = ws"
    by (simp add: list_all_iff)
  have "get_next_token (lexer_at (pre @ ws) (length pre))
      = get_next_token (lexer_at (pre @ ws) (length pre + length ws))"
    by (subst get_next_token_skip) (simp add: tw)
  then show ?thesis by (simp add: get_next_token_end)
qed




lemma fuel4: "4 * n + 8 = Suc (Suc (Suc (Suc (4 * n + 4))))"
  by simp





lemma parse_at_end:
  assumes "token_type tok \<notin> {NUMBER, LPAREN}"
  shows "Parser_parse (Suc (Suc (Suc (Suc n)))) \<lparr>lexer = l, current_token = tok\<rparr>
           = Some (Inl (SyntaxError_Unexpected (token_type tok)))"
  using assms by (simp add: Parser_parse_def)



section \<open>Empty input\<close>

text \<open>
  C10. On an empty input, or one of white space only, the first token the lexer gives is
  \<open>EOF\<close>, with no error and no token before it, and \<open>parse\<close> fails with the syntax
  error \<open>Unexpected token EOF\<close>.
\<close>

theorem empty_input:
  assumes "list_all isspace t"
  shows "get_next_token (Lexer_init t)
           = Inr (Token EOF NoneV, \<lparr>text = t, pos = length t, current_char = None\<rparr>)
    \<and> tokenize (Lexer_init t) = Inr ([], \<lparr>text = t, pos = length t, current_char = None\<rparr>)
    \<and> parse t = Some (Inl (SyntaxError_Unexpected EOF))"
proof -
  have e: "lexer_at t (length t) = \<lparr>text = t, pos = length t, current_char = None\<rparr>"
    by (simp add: lexer_at_def)
  from get_next_token_spaces [OF assms, of "[]"]
  have g: "get_next_token (Lexer_init t) = Inr (Token EOF NoneV, lexer_at t (length t))"
    by (simp add: Lexer_init_at)
  then have "tokenize (Lexer_init t) = Inr ([], lexer_at t (length t))"
    by (simp add: tokenize_def tokenize_loop.simps)
  moreover have "parse t = Some (Inl (SyntaxError_Unexpected EOF))"
  proof -
    have "Parser_parse (Suc (Suc (Suc (Suc (4 * length t + 4)))))
            \<lparr>lexer = lexer_at t (length t), current_token = Token EOF NoneV\<rparr>
          = Some (Inl (SyntaxError_Unexpected (token_type (Token EOF NoneV))))"
      by (rule parse_at_end) simp
    then have "Parser_parse (4 * length t + 8)
            \<lparr>lexer = lexer_at t (length t), current_token = Token EOF NoneV\<rparr>
          = Some (Inl (SyntaxError_Unexpected EOF))"
      by (simp only: fuel4 Token.sel)
    then show ?thesis
      by (simp only: parse_def Parser_init_def g sum.case prod.case option.case)
  qed
  ultimately show ?thesis using g by (simp add: e)
qed


theorem empty_input_witness:
  "list_all isspace ''  ''
   \<and> tokenize (Lexer_init ''  '')
       = Inr ([], \<lparr>text = ''  '', pos = length ''  '', current_char = None\<rparr>)
   \<and> parse ''  '' = Some (Inl (SyntaxError_Unexpected EOF))"
proof -
  have h: "list_all isspace ''  ''" by (simp add: isspace_def)
  from empty_input [OF h] h show ?thesis by blast
qed

section \<open>Integer literals\<close>




section \<open>Lexical errors\<close>




















end
